theory Spec2Isabelle
  imports Main
begin

section \<open>Python values and byte-string primitives\<close>

text \<open>
  A Python \<open>bytes\<close> object is a list of 8-bit characters. A header name or value handed
  to the module is either \<open>bytes\<close> or a \<open>str\<close>; a \<open>str\<close> is a list of Unicode code points.
\<close>

type_synonym bytes = string

datatype pyval = PyBytes bytes | PyStr "nat list"

text \<open>A \<open>str\<close> literal of the source, all of whose characters are written in the file.\<close>

definition str_lit :: "string \<Rightarrow> pyval" where
  "str_lit s = PyStr (map of_char s)"

text \<open>
  The messages of \<open>ProtocolError\<close> raised by \<open>headers.py\<close>, one constructor per
  message text; \<open>IllegalHeaderName name\<close> is \<open>"Illegal header name {}".format(name)\<close>.
\<close>

datatype protocol_msg =
    IllegalHeaderName bytes
  | MultipleContentLength
  | BadContentLength
  | MultipleTransferEncoding
  | OnlyChunkedSupported

datatype error =
    ProtocolError protocol_msg
  | UnicodeEncodeError
  | AssertionError
  | ValueError

type_synonym header = "bytes \<times> bytes"

text \<open>\<open>bytes.lower()\<close>: the ASCII letters \<open>A\<close>..\<open>Z\<close> become \<open>a\<close>..\<open>z\<close>, every other byte is kept.\<close>

definition lower_byte :: "char \<Rightarrow> char" where
  "lower_byte c =
     (let n = (of_char c :: nat) in if 65 \<le> n \<and> n \<le> 90 then char_of (n + 32) else c)"

definition lower :: "bytes \<Rightarrow> bytes" where
  "lower bs = map lower_byte bs"

text \<open>\<open>bytes.strip()\<close> removes the ASCII whitespace bytes \<open>b' \t\n\r\x0b\x0c'\<close> at both ends.\<close>

definition is_space :: "char \<Rightarrow> bool" where
  "is_space c = (c \<in> set [CHR '' '', CHR 0x09, CHR 0x0A, CHR 0x0D, CHR 0x0B, CHR 0x0C])"

definition lstrip :: "bytes \<Rightarrow> bytes" where
  "lstrip bs = dropWhile is_space bs"

definition strip :: "bytes \<Rightarrow> bytes" where
  "strip bs = rev (lstrip (rev (lstrip bs)))"

text \<open>
  \<open>bytes.split(sep)\<close> for a one-byte separator: the pieces between the separators, so that
  a value without separator (also the empty one) gives one piece.
\<close>

fun split :: "char \<Rightarrow> bytes \<Rightarrow> bytes list" where
  "split sep [] = [[]]"
| "split sep (c # cs) =
     (if c = sep then [] # split sep cs
      else (case split sep cs of [] \<Rightarrow> [[c]] | p # ps \<Rightarrow> (c # p) # ps))"

definition is_digit :: "char \<Rightarrow> bool" where
  "is_digit c = (let n = (of_char c :: nat) in 48 \<le> n \<and> n \<le> 57)"

definition digit_val :: "char \<Rightarrow> int" where
  "digit_val c = int (of_char c) - 48"

text \<open>A non-empty string of ASCII digits.\<close>

definition all_digit :: "bytes \<Rightarrow> bool" where
  "all_digit v = (v \<noteq> [] \<and> list_all is_digit v)"

text \<open>
  Python's \<open>int(b)\<close> on a \<open>bytes\<close> object, base ten: surrounding ASCII whitespace is
  skipped, one sign is allowed, then decimal digits, where single underscores may stand
  between two digits; anything else raises \<open>ValueError\<close>.
  \<open>int_digits acc bs\<close> reads the rest of the digits after at least one digit was read.
\<close>

fun int_digits :: "int \<Rightarrow> bytes \<Rightarrow> int option" where
  "int_digits acc [] = Some acc"
| "int_digits acc [c] = (if is_digit c then Some (acc * 10 + digit_val c) else None)"
| "int_digits acc (c # d # ds) =
     (if is_digit c then int_digits (acc * 10 + digit_val c) (d # ds)
      else if c = CHR ''_'' \<and> is_digit d then int_digits (acc * 10 + digit_val d) ds
      else None)"

definition int_unsigned :: "bytes \<Rightarrow> int option" where
  "int_unsigned bs =
     (case bs of [] \<Rightarrow> None
      | c # cs \<Rightarrow> if is_digit c then int_digits (digit_val c) cs else None)"

text \<open>
  The interpreter's limit on the digits of a decimal string that \<open>int\<close> converts
  (\<open>sys.get_int_max_str_digits()\<close>): from CPython 3.11, and in the patched earlier
  releases, \<open>int\<close> raises \<open>ValueError\<close> when the string has more digits than the
  limit. The limit is 4300 unless it is set otherwise, the value 0 switches it off, and
  strings of at most 640 digits are never refused. An interpreter without the limit is
  the setting 0.
\<close>

definition exceeds_max_str_digits :: "nat \<Rightarrow> nat \<Rightarrow> bool" where
  "exceeds_max_str_digits max_str_digits digits =
     (640 < digits \<and> 0 < max_str_digits \<and> max_str_digits < digits)"

definition py_int :: "nat \<Rightarrow> bytes \<Rightarrow> error + int" where
  "py_int max_str_digits bs =
     (let s = strip bs;
          r = (case s of [] \<Rightarrow> None
               | c # cs \<Rightarrow>
                   if c = CHR ''-'' then map_option uminus (int_unsigned cs)
                   else if c = CHR ''+'' then int_unsigned cs
                   else int_unsigned s)
      in case r of
           None \<Rightarrow> Inl ValueError
         | Some n \<Rightarrow>
             if exceeds_max_str_digits max_str_digits (length (filter is_digit s))
             then Inl ValueError
             else Inr n)"

section \<open>Helpers of \<open>h11/util.py\<close>\<close>

text \<open>
  Modelled from the spec: \<open>bytesify\<close> of \<open>h11/util.py\<close>, which is not among the sources.
  The spec has names and values arrive as text or raw bytes and converted to one canonical
  byte form in a single step: \<open>bytes\<close> are kept as they are, and a \<open>str\<close> is encoded as
  ASCII (headers are ASCII, as the comment at the head of \<open>headers.py\<close> says), which
  raises \<open>UnicodeEncodeError\<close> on a code point above 127.
\<close>

fun bytesify :: "pyval \<Rightarrow> error + bytes" where
  "bytesify (PyBytes b) = Inr b"
| "bytesify (PyStr cs) =
     (if list_all (\<lambda>c. c < 128) cs then Inr (map char_of cs) else Inl UnicodeEncodeError)"

text \<open>
  The compiled pattern \<open>_content_length_re = re.compile(rb"^[0-9]+$")\<close> as the predicate of
  the byte strings that its \<open>match\<close> accepts: one or more ASCII digits up to the end of
  the string, or up to one newline that ends the string (in Python \<open>$\<close> also matches
  just before a final newline).
\<close>

definition content_length_re :: "bytes \<Rightarrow> bool" where
  "content_length_re data =
     (all_digit data
      \<or> (data \<noteq> [] \<and> last data = CHR 0x0A \<and> all_digit (butlast data)))"

text \<open>
  Modelled from the spec: \<open>validate\<close> of \<open>h11/util.py\<close>, which is not among the sources.
  The spec has the value validated against the pattern and the call fail with the given
  message on a mismatch; the pattern is applied with \<open>match\<close>, anchored at the start of
  the value.
\<close>

definition validate :: "(bytes \<Rightarrow> bool) \<Rightarrow> bytes \<Rightarrow> protocol_msg \<Rightarrow> error + unit" where
  "validate regex data msg = (if regex data then Inr () else Inl (ProtocolError msg))"

section \<open>\<open>normalize_and_validate\<close>\<close>

text \<open>
  The local variables of the loop: the list built so far and the two flags.
\<close>

record nv_state =
  new_headers :: "header list"
  saw_content_length :: bool
  saw_transfer_encoding :: bool

text \<open>
  The two guarded blocks of the loop body. Each returns the new value of its flag, or the
  error it raises.
\<close>

definition check_content_length :: "bytes \<Rightarrow> bytes \<Rightarrow> bool \<Rightarrow> error + bool" where
  "check_content_length name_lower val saw =
     (if name_lower = ''content-length'' then
        (if saw then Inl (ProtocolError MultipleContentLength)
         else (case validate content_length_re val BadContentLength of
                 Inl e \<Rightarrow> Inl e
               | Inr _ \<Rightarrow> Inr True))
      else Inr saw)"

definition check_transfer_encoding :: "bytes \<Rightarrow> bytes \<Rightarrow> bool \<Rightarrow> error + bool" where
  "check_transfer_encoding name_lower val saw =
     (if name_lower = ''transfer-encoding'' then
        (if saw then Inl (ProtocolError MultipleTransferEncoding)
         else if lower val \<noteq> ''chunked'' then Inl (ProtocolError OnlyChunkedSupported)
         else Inr True)
      else Inr saw)"

text \<open>One iteration of \<open>for name, value in headers\<close>.\<close>

definition normalize_step :: "nv_state \<Rightarrow> pyval \<times> pyval \<Rightarrow> error + nv_state" where
  "normalize_step st nv =
     (case bytesify (fst nv) of Inl e \<Rightarrow> Inl e | Inr name \<Rightarrow>
      (case bytesify (snd nv) of Inl e \<Rightarrow> Inl e | Inr val \<Rightarrow>
       (let name_lower = lower name in
        if strip name \<noteq> name then Inl (ProtocolError (IllegalHeaderName name))
        else
          (case check_content_length name_lower val (saw_content_length st) of
             Inl e \<Rightarrow> Inl e
           | Inr saw_cl \<Rightarrow>
          (case check_transfer_encoding name_lower val (saw_transfer_encoding st) of
             Inl e \<Rightarrow> Inl e
           | Inr saw_te \<Rightarrow>
               Inr \<lparr>new_headers = new_headers st @ [(name, val)],
                    saw_content_length = saw_cl,
                    saw_transfer_encoding = saw_te\<rparr>)))))"

fun normalize_loop :: "nv_state \<Rightarrow> (pyval \<times> pyval) list \<Rightarrow> error + nv_state" where
  "normalize_loop st [] = Inr st"
| "normalize_loop st (nv # rest) =
     (case normalize_step st nv of Inl e \<Rightarrow> Inl e | Inr st' \<Rightarrow> normalize_loop st' rest)"

definition normalize_and_validate :: "(pyval \<times> pyval) list \<Rightarrow> error + header list" where
  "normalize_and_validate headers =
     (case normalize_loop
             \<lparr>new_headers = [], saw_content_length = False, saw_transfer_encoding = False\<rparr>
             headers of
        Inl e \<Rightarrow> Inl e
      | Inr st \<Rightarrow> Inr (new_headers st))"

section \<open>\<open>get_comma_header\<close> and \<open>set_comma_header\<close>\<close>

text \<open>
  The inner loop over the pieces of one value: each piece is stripped and appended when
  it is not empty.
\<close>

fun append_pieces :: "bytes list \<Rightarrow> bytes list \<Rightarrow> bytes list" where
  "append_pieces out [] = out"
| "append_pieces out (found_split_value # rest) =
     (let found_split_value = strip found_split_value in
      if found_split_value \<noteq> [] then append_pieces (out @ [found_split_value]) rest
      else append_pieces out rest)"

text \<open>The outer loop over the headers, \<open>name\<close> already converted and lower-cased.\<close>

fun get_comma_loop :: "bytes \<Rightarrow> bool \<Rightarrow> bytes list \<Rightarrow> header list \<Rightarrow> bytes list" where
  "get_comma_loop name lowercase out [] = out"
| "get_comma_loop name lowercase out ((found_name, found_raw_value) # rest) =
     (let found_name = lower found_name in
      if found_name = name then
        (let found_raw_value = (if lowercase then lower found_raw_value else found_raw_value)
         in get_comma_loop name lowercase
              (append_pieces out (split CHR '','' found_raw_value)) rest)
      else get_comma_loop name lowercase out rest)"

definition get_comma_header :: "header list \<Rightarrow> pyval \<Rightarrow> bool \<Rightarrow> error + bytes list" where
  "get_comma_header headers name lowercase =
     (case bytesify name of Inl e \<Rightarrow> Inl e
      | Inr name \<Rightarrow> Inr (get_comma_loop (lower name) lowercase [] headers))"

text \<open>
  \<open>set_comma_header\<close> rewrites the list in place (\<open>headers[:] = new_headers\<close>); the model
  returns the new contents of the list. The local list \<open>new_headers\<close> is \<open>new_hdrs\<close> here.
\<close>

fun keep_others :: "bytes \<Rightarrow> header list \<Rightarrow> header list \<Rightarrow> header list" where
  "keep_others name_lower new_hdrs [] = new_hdrs"
| "keep_others name_lower new_hdrs ((found_name, found_raw_value) # rest) =
     (if lower found_name \<noteq> name_lower
      then keep_others name_lower (new_hdrs @ [(found_name, found_raw_value)]) rest
      else keep_others name_lower new_hdrs rest)"

fun append_new :: "bytes \<Rightarrow> header list \<Rightarrow> bytes list \<Rightarrow> header list" where
  "append_new name new_hdrs [] = new_hdrs"
| "append_new name new_hdrs (new_value # rest) =
     append_new name (new_hdrs @ [(name, new_value)]) rest"

definition set_comma_header :: "header list \<Rightarrow> pyval \<Rightarrow> bytes list \<Rightarrow> error + header list" where
  "set_comma_header headers name new_values =
     (case bytesify name of Inl e \<Rightarrow> Inl e
      | Inr name \<Rightarrow>
          (let name_lower = lower name;
               new_hdrs = keep_others name_lower [] headers
           in Inr (append_new name new_hdrs new_values)))"

section \<open>\<open>framing_headers\<close> and \<open>has_expect_100_continue\<close>\<close>

text \<open>
  The result is the pair (effective transfer encoding, effective content length), with
  \<open>None\<close> for Python's \<open>None\<close>. A failing \<open>assert\<close> raises \<open>AssertionError\<close>, and a
  failing \<open>int(...)\<close> raises \<open>ValueError\<close>. The first argument is the interpreter's
  limit on the digits of \<open>int\<close>, which the function reads through \<open>int\<close>.
\<close>

definition framing_headers ::
  "nat \<Rightarrow> header list \<Rightarrow> error + (bytes option \<times> int option)" where
  "framing_headers max_str_digits headers =
     (case get_comma_header headers (str_lit ''Transfer-Encoding'') True of
        Inl e \<Rightarrow> Inl e
      | Inr transfer_encodings \<Rightarrow>
          if transfer_encodings \<noteq> [] then
            (if transfer_encodings = [''chunked''] then Inr (Some ''chunked'', None)
             else Inl AssertionError)
          else
            (case get_comma_header headers (str_lit ''Content-Length'') True of
               Inl e \<Rightarrow> Inl e
             | Inr content_lengths \<Rightarrow>
                 (case content_lengths of
                    [] \<Rightarrow> Inr (None, None)
                  | c # _ \<Rightarrow>
                      (case py_int max_str_digits c of
                         Inl e \<Rightarrow> Inl e
                       | Inr n \<Rightarrow> Inr (None, Some n)))))"

text \<open>The two attributes of a request that \<open>has_expect_100_continue\<close> reads.\<close>

record request =
  http_version :: bytes
  headers :: "header list"

text \<open>\<open>a < b\<close> on \<open>bytes\<close>: lexicographic on the byte values, a proper prefix is smaller.\<close>

fun bytes_less :: "bytes \<Rightarrow> bytes \<Rightarrow> bool" where
  "bytes_less [] [] = False"
| "bytes_less [] (y # ys) = True"
| "bytes_less (x # xs) [] = False"
| "bytes_less (x # xs) (y # ys) =
     (if (of_char x :: nat) < of_char y then True
      else if (of_char y :: nat) < of_char x then False
      else bytes_less xs ys)"

definition has_expect_100_continue :: "request \<Rightarrow> error + bool" where
  "has_expect_100_continue req =
     (if bytes_less (http_version req) ''1.1'' then Inr False
      else (case get_comma_header (headers req) (str_lit ''Expect'') False of
              Inl e \<Rightarrow> Inl e
            | Inr expect \<Rightarrow> Inr (''100-continue'' \<in> set expect)))"

section \<open>Reference definitions for the comma-list accessor\<close>

text \<open>
  The values of one header as the specification words them: the value is split on the
  comma, each piece is stripped, the empty pieces are dropped, and each remaining piece is
  lower-cased when the flag is set.
\<close>

definition comma_values :: "bool \<Rightarrow> bytes \<Rightarrow> bytes list" where
  "comma_values lowercase v =
     map (if lowercase then lower else id)
       (filter (\<lambda>piece. piece \<noteq> []) (map strip (split CHR '','' v)))"

text \<open>
  The values of all headers whose name equals \<open>name\<close> up to case, in the order of the
  headers and, within one header, in the order of the pieces.
\<close>

definition get_comma_spec :: "header list \<Rightarrow> bytes \<Rightarrow> bool \<Rightarrow> bytes list" where
  "get_comma_spec hs name lowercase =
     concat (map (\<lambda>h. comma_values lowercase (snd h))
               (filter (\<lambda>h. lower (fst h) = lower name) hs))"

section \<open>Reference definitions for the normalizer\<close>

text \<open>Whether a header carries one of the two reserved names, compared without case.\<close>

definition is_content_length :: "header \<Rightarrow> bool" where
  "is_content_length h = (lower (fst h) = ''content-length'')"

definition is_transfer_encoding :: "header \<Rightarrow> bool" where
  "is_transfer_encoding h = (lower (fst h) = ''transfer-encoding'')"

text \<open>
  The entries, in input order, up to the first one whose name or value does not convert
  to bytes, each with its name and value converted. For an input of \<open>bytes\<close> pairs or of
  ASCII text this is the whole input.
\<close>

fun converted :: "(pyval \<times> pyval) list \<Rightarrow> header list" where
  "converted [] = []"
| "converted (nv # rest) =
     (case bytesify (fst nv) of Inl _ \<Rightarrow> []
      | Inr name \<Rightarrow>
          (case bytesify (snd nv) of Inl _ \<Rightarrow> []
           | Inr val \<Rightarrow> (name, val) # converted rest))"

text \<open>
  What the body of the loop raises on one converted entry, given the entries before it,
  in the order of its checks; \<open>first_error\<close> is the message of the first entry that
  raises.
\<close>

definition entry_error :: "header list \<Rightarrow> header \<Rightarrow> protocol_msg option" where
  "entry_error seen h =
     (if strip (fst h) \<noteq> fst h then Some (IllegalHeaderName (fst h))
      else if is_content_length h \<and> list_ex is_content_length seen
        then Some MultipleContentLength
      else if is_content_length h \<and> \<not> content_length_re (snd h)
        then Some BadContentLength
      else if is_transfer_encoding h \<and> list_ex is_transfer_encoding seen
        then Some MultipleTransferEncoding
      else if is_transfer_encoding h \<and> lower (snd h) \<noteq> ''chunked''
        then Some OnlyChunkedSupported
      else None)"

fun first_error :: "header list \<Rightarrow> header list \<Rightarrow> protocol_msg option" where
  "first_error seen [] = None"
| "first_error seen (h # rest) =
     (case entry_error seen h of
        Some m \<Rightarrow> Some m
      | None \<Rightarrow> first_error (seen @ [h]) rest)"


text \<open>A string of digits followed by one newline that ends it.\<close>

definition digits_newline :: "bytes \<Rightarrow> bool" where
  "digits_newline v = (v \<noteq> [] \<and> last v = CHR 0x0A \<and> all_digit (butlast v))"

text \<open>A list of \<open>bytes\<close> pairs as an input of the normalizer.\<close>

definition of_bytes :: "header list \<Rightarrow> (pyval \<times> pyval) list" where
  "of_bytes bs = map (\<lambda>h. (PyBytes (fst h), PyBytes (snd h))) bs"

text \<open>
  A valid header list: at most one Content-Length, with a value that the pattern of the
  source accepts (every all-digit value is one), at most one Transfer-Encoding, with a
  value that is \<open>chunked\<close> up to case, and no name with surrounding whitespace.
\<close>

definition valid_headers :: "header list \<Rightarrow> bool" where
  "valid_headers bs =
     (length (filter is_content_length bs) \<le> 1
      \<and> list_all (\<lambda>h. is_content_length h \<longrightarrow> content_length_re (snd h)) bs
      \<and> length (filter is_transfer_encoding bs) \<le> 1
      \<and> list_all (\<lambda>h. is_transfer_encoding h \<longrightarrow> lower (snd h) = ''chunked'') bs
      \<and> list_all (\<lambda>h. strip (fst h) = fst h) bs)"

text \<open>The number that a string of decimal digits denotes.\<close>

definition decimal :: "bytes \<Rightarrow> int" where
  "decimal v = foldl (\<lambda>acc c. acc * 10 + digit_val c) 0 v"

section \<open>Facts about the byte-string primitives\<close>

lemma bytesify_str_lit:
  "list_all (\<lambda>c. (of_char c :: nat) < 128) s \<Longrightarrow> bytesify (str_lit s) = Inr s"
  by (simp add: str_lit_def list_all_iff)

lemma bytesify_literals:
  "bytesify (str_lit ''Transfer-Encoding'') = Inr ''Transfer-Encoding''"
  "bytesify (str_lit ''Content-Length'') = Inr ''Content-Length''"
  "bytesify (str_lit ''Expect'') = Inr ''Expect''"
  by (simp_all add: bytesify_str_lit)

lemma lower_literals:
  "lower ''Transfer-Encoding'' = ''transfer-encoding''"
  "lower ''Content-Length'' = ''content-length''"
  "lower ''Expect'' = ''expect''"
  by (simp_all add: lower_def lower_byte_def char_of_eq_iff)

lemma of_char_lower_byte:
  "(of_char (lower_byte c) :: nat) =
     (if 65 \<le> (of_char c :: nat) \<and> (of_char c :: nat) \<le> 90 then of_char c + 32 else of_char c)"
  by (simp add: lower_byte_def Let_def)

lemma lower_byte_eq_comma: "lower_byte c = CHR '','' \<longleftrightarrow> c = CHR '',''"
proof -
  have "lower_byte c = CHR '','' \<longleftrightarrow> (of_char (lower_byte c) :: nat) = of_char CHR '',''"
    by (simp only: of_char_eq_iff)
  also have "\<dots> \<longleftrightarrow> (of_char c :: nat) = of_char CHR '',''"
    by (simp add: of_char_lower_byte)
  also have "\<dots> \<longleftrightarrow> c = CHR '',''"
    by (simp only: of_char_eq_iff)
  finally show ?thesis .
qed

lemma is_space_iff: "is_space c \<longleftrightarrow> (of_char c :: nat) \<in> {32, 9, 10, 13, 11, 12}"
proof -
  have "is_space c \<longleftrightarrow>
        (of_char c :: nat) \<in>
          of_char ` set [CHR '' '', CHR 0x09, CHR 0x0A, CHR 0x0D, CHR 0x0B, CHR 0x0C]"
    unfolding is_space_def using inj_of_char[where 'a=nat] by (simp only: inj_image_mem_iff)
  then show ?thesis by simp
qed

lemma is_space_lower_byte: "is_space (lower_byte c) = is_space c"
  by (simp add: is_space_iff of_char_lower_byte)

lemma split_not_Nil: "split sep v \<noteq> []"
  by (induction v) (auto split: list.splits)

lemma split_lower: "split CHR '','' (lower v) = map lower (split CHR '','' v)"
proof (induction v)
  case Nil
  show ?case by (simp add: lower_def)
next
  case (Cons c v)
  then show ?case
    using split_not_Nil[of "CHR '',''" v]
    by (cases "split CHR '','' v") (auto simp add: lower_def lower_byte_eq_comma)
qed

lemma lstrip_lower: "lstrip (lower v) = lower (lstrip v)"
  by (simp add: lstrip_def lower_def dropWhile_map comp_def is_space_lower_byte)

lemma strip_lower: "strip (lower v) = lower (strip v)"
proof -
  have r: "rev (lower w) = lower (rev w)" for w by (simp add: lower_def rev_map)
  show ?thesis by (simp add: strip_def lstrip_lower r)
qed

lemma lower_Nil_iff: "lower v = [] \<longleftrightarrow> v = []"
  by (simp add: lower_def)

lemma pieces_lower:
  "filter (\<lambda>p. p \<noteq> []) (map strip (split CHR '','' (lower v))) =
   map lower (filter (\<lambda>p. p \<noteq> []) (map strip (split CHR '','' v)))"
  by (simp add: split_lower filter_map comp_def strip_lower lower_Nil_iff)

section \<open>The accessors in closed form\<close>

lemma append_pieces_eq:
  "append_pieces out ps = out @ filter (\<lambda>p. p \<noteq> []) (map strip ps)"
  by (induction ps arbitrary: out) (simp_all add: Let_def)

lemma get_comma_loop_eq:
  "get_comma_loop name lc out hs =
     out @ concat (map (\<lambda>h. filter (\<lambda>p. p \<noteq> [])
                               (map strip (split CHR '','' (if lc then lower (snd h) else snd h))))
                    (filter (\<lambda>h. lower (fst h) = name) hs))"
  by (induction hs arbitrary: out) (auto simp add: Let_def append_pieces_eq)

lemma get_comma_loop_spec:
  "get_comma_loop (lower name) lc [] hs = get_comma_spec hs name lc"
  unfolding get_comma_loop_eq get_comma_spec_def comma_values_def
  by (cases lc) (simp_all add: pieces_lower)

lemma get_comma_header_literals:
  "get_comma_header hs (str_lit ''Transfer-Encoding'') lc
     = Inr (get_comma_spec hs ''Transfer-Encoding'' lc)"
  "get_comma_header hs (str_lit ''Content-Length'') lc
     = Inr (get_comma_spec hs ''Content-Length'' lc)"
  "get_comma_header hs (str_lit ''Expect'') lc = Inr (get_comma_spec hs ''Expect'' lc)"
  by (simp_all add: get_comma_header_def bytesify_literals get_comma_loop_spec)

lemma keep_others_eq:
  "keep_others nl acc hs = acc @ filter (\<lambda>h. lower (fst h) \<noteq> nl) hs"
  by (induction hs arbitrary: acc) auto

lemma append_new_eq:
  "append_new name acc vs = acc @ map (\<lambda>v. (name, v)) vs"
  by (induction vs arbitrary: acc) auto

section \<open>The loop of the normalizer in closed form\<close>

lemma bytesify_error: "bytesify x = Inl e \<Longrightarrow> e = UnicodeEncodeError"
  by (cases x) (auto split: if_splits)

lemma normalize_step_eq:
  assumes "bytesify (fst nv) = Inr name" and "bytesify (snd nv) = Inr val"
    and "saw_content_length st = list_ex is_content_length (new_headers st)"
    and "saw_transfer_encoding st = list_ex is_transfer_encoding (new_headers st)"
  shows "normalize_step st nv =
     (case entry_error (new_headers st) (name, val) of
        Some m \<Rightarrow> Inl (ProtocolError m)
      | None \<Rightarrow>
          Inr \<lparr>new_headers = new_headers st @ [(name, val)],
               saw_content_length = list_ex is_content_length (new_headers st @ [(name, val)]),
               saw_transfer_encoding =
                 list_ex is_transfer_encoding (new_headers st @ [(name, val)])\<rparr>)"
  using assms
  by (auto simp add: normalize_step_def entry_error_def check_content_length_def
      check_transfer_encoding_def validate_def is_content_length_def
      is_transfer_encoding_def Let_def)

lemma normalize_loop_eq:
  assumes "saw_content_length st = list_ex is_content_length (new_headers st)"
    and "saw_transfer_encoding st = list_ex is_transfer_encoding (new_headers st)"
  shows "normalize_loop st hs =
     (case first_error (new_headers st) (converted hs) of
        Some m \<Rightarrow> Inl (ProtocolError m)
      | None \<Rightarrow>
          if length (converted hs) = length hs then
            Inr \<lparr>new_headers = new_headers st @ converted hs,
                 saw_content_length =
                   list_ex is_content_length (new_headers st @ converted hs),
                 saw_transfer_encoding =
                   list_ex is_transfer_encoding (new_headers st @ converted hs)\<rparr>
          else Inl UnicodeEncodeError)"
  using assms
proof (induction hs arbitrary: st)
  case Nil
  then show ?case by simp
next
  case (Cons nv hs)
  show ?case
  proof (cases "bytesify (fst nv)")
    case (Inl e)
    then show ?thesis
      using bytesify_error[OF Inl] by (simp add: normalize_step_def)
  next
    case name: (Inr name)
    show ?thesis
    proof (cases "bytesify (snd nv)")
      case (Inl e)
      then show ?thesis
        using bytesify_error[OF Inl] name by (simp add: normalize_step_def)
    next
      case val: (Inr val)
      note step = normalize_step_eq[OF name val Cons.prems]
      show ?thesis
      proof (cases "entry_error (new_headers st) (name, val)")
        case (Some m)
        then show ?thesis using step name val by simp
      next
        case None
        let ?st' = "\<lparr>new_headers = new_headers st @ [(name, val)],
               saw_content_length = list_ex is_content_length (new_headers st @ [(name, val)]),
               saw_transfer_encoding =
                 list_ex is_transfer_encoding (new_headers st @ [(name, val)])\<rparr>"
        have s: "normalize_step st nv = Inr ?st'" using step None by simp
        have "normalize_loop ?st' hs = (case first_error (new_headers ?st') (converted hs) of
        Some m \<Rightarrow> Inl (ProtocolError m)
      | None \<Rightarrow>
          if length (converted hs) = length hs then
            Inr \<lparr>new_headers = new_headers ?st' @ converted hs,
                 saw_content_length =
                   list_ex is_content_length (new_headers ?st' @ converted hs),
                 saw_transfer_encoding =
                   list_ex is_transfer_encoding (new_headers ?st' @ converted hs)\<rparr>
          else Inl UnicodeEncodeError)"
          by (rule Cons.IH) simp_all
        then show ?thesis using s name val None by (simp split: option.splits)
      qed
    qed
  qed
qed

lemma normalize_and_validate_eq:
  "normalize_and_validate hs =
     (case first_error [] (converted hs) of
        Some m \<Rightarrow> Inl (ProtocolError m)
      | None \<Rightarrow> if length (converted hs) = length hs then Inr (converted hs)
                else Inl UnicodeEncodeError)"
  by (simp add: normalize_and_validate_def normalize_loop_eq split: option.splits)



lemma converted_nth:
  "length (converted hs) = length hs \<Longrightarrow> i < length hs \<Longrightarrow>
     bytesify (fst (hs ! i)) = Inr (fst (converted hs ! i))
     \<and> bytesify (snd (hs ! i)) = Inr (snd (converted hs ! i))"
proof (induction hs arbitrary: i)
  case Nil
  then show ?case by simp
next
  case (Cons nv hs)
  then show ?case
    by (cases i) (auto split: sum.splits)
qed


lemma converted_of_bytes: "converted (of_bytes bs) = bs"
  by (induction bs) (simp_all add: of_bytes_def)

lemma normalize_Inr_iff:
  "normalize_and_validate hs = Inr out \<longleftrightarrow>
     first_error [] (converted hs) = None \<and> length (converted hs) = length hs
     \<and> out = converted hs"
  by (auto simp add: normalize_and_validate_eq split: option.splits)


lemma first_error_None_valid:
  "first_error seen bs = None \<longleftrightarrow>
     (list_all (\<lambda>h. strip (fst h) = fst h) bs
      \<and> list_all (\<lambda>h. is_content_length h \<longrightarrow> content_length_re (snd h)) bs
      \<and> list_all (\<lambda>h. is_transfer_encoding h \<longrightarrow> lower (snd h) = ''chunked'') bs
      \<and> length (filter is_content_length (seen @ bs)) \<le> 1 + length (filter is_content_length seen)
      \<and> (list_ex is_content_length seen \<longrightarrow> filter is_content_length bs = [])
      \<and> length (filter is_transfer_encoding (seen @ bs)) \<le> 1 + length (filter is_transfer_encoding seen)
      \<and> (list_ex is_transfer_encoding seen \<longrightarrow> filter is_transfer_encoding bs = []))"
proof (induction bs arbitrary: seen)
  case Nil
  show ?case by simp
next
  case (Cons h bs)
  show ?case
    by (cases "entry_error seen h")
      (auto simp add: Cons.IH entry_error_def list_ex_iff filter_empty_conv
        split: if_splits)
qed

lemma first_error_valid: "first_error [] bs = None \<longleftrightarrow> valid_headers bs"
  unfolding first_error_None_valid valid_headers_def by auto

lemma content_length_re_iff:
  "content_length_re v \<longleftrightarrow> all_digit v \<or> digits_newline v"
  by (simp add: content_length_re_def digits_newline_def)


lemma length_of_bytes: "length (of_bytes bs) = length bs"
  by (simp add: of_bytes_def)

lemma normalize_valid: "normalize_and_validate hs = Inr h \<Longrightarrow> valid_headers h"
  by (simp add: normalize_Inr_iff first_error_valid)

section \<open>Digit strings and the comma lists of a valid header list\<close>

lemma is_digit_iff: "is_digit c \<longleftrightarrow> 48 \<le> (of_char c :: nat) \<and> (of_char c :: nat) \<le> 57"
  by (simp add: is_digit_def Let_def)

lemma digit_not_space: "is_digit c \<Longrightarrow> \<not> is_space c"
  by (auto simp add: is_digit_iff is_space_iff)

lemma digit_lower_byte: "is_digit c \<Longrightarrow> lower_byte c = c"
  by (simp add: is_digit_iff lower_byte_def Let_def)

lemma digit_not_special:
  "is_digit c \<Longrightarrow> c \<noteq> CHR '','' \<and> c \<noteq> CHR ''-'' \<and> c \<noteq> CHR ''+''"
  by (auto simp add: is_digit_iff)

lemma digit_val_nonneg: "is_digit c \<Longrightarrow> 0 \<le> digit_val c"
  by (simp add: is_digit_iff digit_val_def)

lemma digits_lower: "list_all is_digit v \<Longrightarrow> lower v = v"
  by (induction v) (simp_all add: lower_def digit_lower_byte)

lemma digits_split: "list_all is_digit v \<Longrightarrow> split CHR '','' v = [v]"
  by (induction v) (auto simp add: digit_not_special)

lemma digits_lstrip: "list_all is_digit v \<Longrightarrow> lstrip v = v"
  by (cases v) (simp_all add: lstrip_def digit_not_space)

lemma digits_strip: "list_all is_digit v \<Longrightarrow> strip v = v"
proof -
  assume a: "list_all is_digit v"
  then have "list_all is_digit (rev v)" by (simp add: list_all_iff)
  then show ?thesis using a by (simp add: strip_def digits_lstrip)
qed

lemma digits_pieces:
  "all_digit v \<Longrightarrow>
     filter (\<lambda>p. p \<noteq> []) (map strip (split CHR '','' (lower v))) = [v]"
  by (simp add: all_digit_def digits_lower digits_split digits_strip)

lemma newline_facts:
  "is_space (CHR 0x0A)" "lower_byte (CHR 0x0A) = CHR 0x0A"
  by (simp_all add: is_space_def lower_byte_def)

lemma digits_newline_lower:
  "list_all is_digit ds \<Longrightarrow> lower (ds @ [CHR 0x0A]) = ds @ [CHR 0x0A]"
  using digits_lower[of ds] by (simp add: lower_def newline_facts)

lemma digits_newline_split:
  "list_all is_digit ds \<Longrightarrow> split CHR '','' (ds @ [CHR 0x0A]) = [ds @ [CHR 0x0A]]"
  by (induction ds) (auto simp add: digit_not_special)

lemma digits_newline_strip:
  assumes "all_digit ds"
  shows "strip (ds @ [CHR 0x0A]) = ds"
proof -
  from assms obtain c cs where ds: "ds = c # cs" and c: "is_digit c"
    and all: "list_all is_digit ds"
    by (cases ds) (auto simp add: all_digit_def)
  have 1: "lstrip (ds @ [CHR 0x0A]) = ds @ [CHR 0x0A]"
    using c by (simp add: ds lstrip_def digit_not_space)
  have "list_all is_digit (rev ds)" using all by (simp add: list_all_iff)
  then have 2: "lstrip (CHR 0x0A # rev ds) = rev ds"
    using digits_lstrip[of "rev ds"] by (simp add: lstrip_def newline_facts)
  show ?thesis by (simp add: strip_def 1 2)
qed

lemma content_length_pieces:
  assumes "content_length_re v"
  shows "\<exists>t. all_digit t
           \<and> filter (\<lambda>p. p \<noteq> []) (map strip (split CHR '','' (lower v))) = [t]"
proof -
  from assms have "all_digit v \<or> digits_newline v" by (simp add: content_length_re_iff)
  then show ?thesis
  proof
    assume "all_digit v"
    then show ?thesis using digits_pieces by blast
  next
    assume d: "digits_newline v"
    then have v: "v = butlast v @ [CHR 0x0A]" and b: "all_digit (butlast v)"
      using append_butlast_last_id[of v] by (auto simp add: digits_newline_def)
    have l: "list_all is_digit (butlast v)" using b by (simp add: all_digit_def)
    have "filter (\<lambda>p. p \<noteq> [])
            (map strip (split CHR '','' (lower (butlast v @ [CHR 0x0A])))) = [butlast v]"
      using b by (simp add: digits_newline_lower[OF l] digits_newline_split[OF l]
          digits_newline_strip[OF b] all_digit_def)
    with v b show ?thesis by metis
  qed
qed

lemma strip_chunked: "strip ''chunked'' = ''chunked''"
  by code_simp

lemma int_digits_digits:
  "list_all is_digit v \<Longrightarrow>
     int_digits acc v = Some (foldl (\<lambda>acc c. acc * 10 + digit_val c) acc v)"
  by (induction acc v rule: int_digits.induct) simp_all

lemma foldl_digits_nonneg:
  "list_all is_digit v \<Longrightarrow> 0 \<le> acc \<Longrightarrow>
     0 \<le> foldl (\<lambda>acc c. acc * 10 + digit_val c) acc v"
  by (induction v arbitrary: acc) (simp_all add: digit_val_nonneg)

lemma py_int_digits:
  assumes "all_digit v"
  shows "py_int m v =
           (if exceeds_max_str_digits m (length v) then Inl ValueError
            else Inr (decimal v))"
    and "0 \<le> decimal v"
proof -
  from assms obtain c cs where v: "v = c # cs" and c: "is_digit c" and cs: "list_all is_digit cs"
    by (cases v) (auto simp add: all_digit_def)
  have all: "list_all is_digit v" using v c cs by simp
  have u: "int_unsigned v = Some (decimal v)"
    using c cs by (simp add: int_unsigned_def v int_digits_digits decimal_def)
  have s: "strip v = v" using all by (rule digits_strip)
  have f: "filter is_digit v = v" using all by (simp add: list_all_iff)
  have "(case v of [] \<Rightarrow> None
         | c # cs \<Rightarrow>
             if c = CHR ''-'' then map_option uminus (int_unsigned cs)
             else if c = CHR ''+'' then int_unsigned cs
             else int_unsigned v) = Some (decimal v)"
    using digit_not_special[OF c] u by (simp add: v)
  then show "py_int m v =
           (if exceeds_max_str_digits m (length v) then Inl ValueError
            else Inr (decimal v))"
    unfolding py_int_def Let_def s f by simp
  show "0 \<le> decimal v"
    unfolding decimal_def using all by (rule foldl_digits_nonneg) simp
qed

lemma get_comma_spec_lowercase:
  "get_comma_spec hs name True =
     concat (map (\<lambda>h. filter (\<lambda>p. p \<noteq> []) (map strip (split CHR '','' (lower (snd h)))))
               (filter (\<lambda>h. lower (fst h) = lower name) hs))"
  using get_comma_loop_eq[of "lower name" True "[]" hs]
  by (simp add: get_comma_loop_spec)

lemma filter_at_most_one:
  "length (filter P xs) \<le> 1 \<Longrightarrow> filter P xs = [] \<or> (\<exists>x\<in>set xs. P x \<and> filter P xs = [x])"
proof (cases "filter P xs")
  case Nil
  then show ?thesis by simp
next
  case (Cons x ys)
  assume "length (filter P xs) \<le> 1"
  with Cons have one: "filter P xs = [x]" by simp
  have "x \<in> set (filter P xs)" by (simp add: Cons)
  then have "x \<in> set xs \<and> P x" by simp
  with one show ?thesis by blast
qed

lemma valid_transfer_encodings:
  assumes "valid_headers h"
  shows "get_comma_spec h ''Transfer-Encoding'' True = []
         \<or> get_comma_spec h ''Transfer-Encoding'' True = [''chunked'']"
proof -
  have len: "length (filter is_transfer_encoding h) \<le> 1"
    and ok: "list_all (\<lambda>x. is_transfer_encoding x \<longrightarrow> lower (snd x) = ''chunked'') h"
    using assms by (simp_all add: valid_headers_def)
  have eq: "get_comma_spec h ''Transfer-Encoding'' True =
     concat (map (\<lambda>h. filter (\<lambda>p. p \<noteq> []) (map strip (split CHR '','' (lower (snd h)))))
               (filter is_transfer_encoding h))"
    by (simp add: get_comma_spec_lowercase lower_literals is_transfer_encoding_def[abs_def])
  from filter_at_most_one[OF len] show ?thesis
  proof
    assume "filter is_transfer_encoding h = []"
    then show ?thesis by (simp add: eq)
  next
    assume "\<exists>x\<in>set h. is_transfer_encoding x \<and> filter is_transfer_encoding h = [x]"
    then obtain x where x: "x \<in> set h" "is_transfer_encoding x"
      "filter is_transfer_encoding h = [x]" by blast
    then have "lower (snd x) = ''chunked''" using ok by (simp add: list_all_iff)
    then show ?thesis using x by (simp add: eq strip_chunked)
  qed
qed

lemma valid_content_lengths:
  assumes "valid_headers h"
  shows "get_comma_spec h ''Content-Length'' True = []
         \<or> (\<exists>t. all_digit t \<and> get_comma_spec h ''Content-Length'' True = [t])"
proof -
  have len: "length (filter is_content_length h) \<le> 1"
    and ok: "list_all (\<lambda>x. is_content_length x \<longrightarrow> content_length_re (snd x)) h"
    using assms by (simp_all add: valid_headers_def)
  have eq: "get_comma_spec h ''Content-Length'' True =
     concat (map (\<lambda>h. filter (\<lambda>p. p \<noteq> []) (map strip (split CHR '','' (lower (snd h)))))
               (filter is_content_length h))"
    by (simp add: get_comma_spec_lowercase lower_literals is_content_length_def[abs_def])
  from filter_at_most_one[OF len] show ?thesis
  proof
    assume "filter is_content_length h = []"
    then show ?thesis by (simp add: eq)
  next
    assume "\<exists>x\<in>set h. is_content_length x \<and> filter is_content_length h = [x]"
    then obtain x where x: "x \<in> set h" "is_content_length x"
      "filter is_content_length h = [x]" by blast
    then have "content_length_re (snd x)" using ok by (simp add: list_all_iff)
    then obtain t where "all_digit t"
      and "filter (\<lambda>p. p \<noteq> []) (map strip (split CHR '','' (lower (snd x)))) = [t]"
      using content_length_pieces by blast
    then show ?thesis using x by (simp add: eq)
  qed
qed

lemma framing_headers_one_none:
  "framing_headers m h = Inr (te, cl) \<Longrightarrow> te = None \<or> cl = None"
  by (auto simp add: framing_headers_def split: sum.splits list.splits if_splits)

lemma framing_headers_digits:
  assumes "get_comma_spec h ''Transfer-Encoding'' True = []"
    and "get_comma_spec h ''Content-Length'' True = t # ts"
    and "all_digit t"
  shows "framing_headers m h =
           (if exceeds_max_str_digits m (length t) then Inl ValueError
            else Inr (None, Some (decimal t)))"
  using assms by (simp add: framing_headers_def get_comma_header_literals py_int_digits)

lemma single_content_length:
  assumes "all_digit v"
  shows "normalize_and_validate [(PyBytes ''Content-Length'', PyBytes v)]
           = Inr [(''Content-Length'', v)]"
    and "framing_headers m [(''Content-Length'', v)] =
           (if exceeds_max_str_digits m (length v) then Inl ValueError
            else Inr (None, Some (decimal v)))"
proof -
  have n: "strip ''Content-Length'' = ''Content-Length''" by code_simp
  have "valid_headers [(''Content-Length'', v)]"
    using assms
    by (simp add: valid_headers_def is_content_length_def is_transfer_encoding_def
        lower_literals content_length_re_iff n)
  then have fe: "first_error [] [(''Content-Length'', v)] = None"
    by (simp only: first_error_valid)
  have cv: "converted [(PyBytes ''Content-Length'', PyBytes v)] = [(''Content-Length'', v)]"
    by simp
  show "normalize_and_validate [(PyBytes ''Content-Length'', PyBytes v)]
           = Inr [(''Content-Length'', v)]"
    unfolding normalize_Inr_iff cv using fe by simp
  have te: "get_comma_spec [(''Content-Length'', v)] ''Transfer-Encoding'' True = []"
    by (simp add: get_comma_spec_lowercase lower_literals)
  have cl: "get_comma_spec [(''Content-Length'', v)] ''Content-Length'' True = [v]"
    using digits_pieces[OF assms] by (simp add: get_comma_spec_lowercase lower_literals)
  show "framing_headers m [(''Content-Length'', v)] =
           (if exceeds_max_str_digits m (length v) then Inl ValueError
            else Inr (None, Some (decimal v)))"
    using te cl assms by (rule framing_headers_digits)
qed

section \<open>The normalizer\<close>




text \<open>
  Claim C3, as the code has it. An accepted input is returned entry for entry: the
  result has the length of the input, and for every entry of the input the stored value
  is the byte conversion of the input value, unchanged (surrounding whitespace is kept),
  and the stored name is the byte conversion of the input name, with no case change.
\<close>

theorem normalize_and_validate_values:
  "normalize_and_validate hs = Inr out \<Longrightarrow>
     length out = length hs
     \<and> (\<forall>i<length hs. bytesify (snd (hs ! i)) = Inr (snd (out ! i))
                       \<and> bytesify (fst (hs ! i)) = Inr (fst (out ! i)))"
  using converted_nth[of hs] by (auto simp add: normalize_Inr_iff)

theorem normalize_and_validate_values_witness:
  "normalize_and_validate [(PyBytes ''Foo'', PyBytes '' bar ''), (PyBytes ''X-y'', PyBytes ''b '')]
     = Inr [(''Foo'', '' bar ''), (''X-y'', ''b '')]
   \<and> bytesify (PyBytes '' bar '') = Inr '' bar ''
   \<and> bytesify (PyBytes ''b '') = Inr ''b ''"
proof -
  let ?hs = "[(PyBytes ''Foo'', PyBytes '' bar ''), (PyBytes ''X-y'', PyBytes ''b '')]"
  let ?out = "[(''Foo'', '' bar ''), (''X-y'', ''b '')]"
  have r: "normalize_and_validate ?hs = Inr ?out" by code_simp
  have "length ?out = length ?hs
        \<and> (\<forall>i<length ?hs. bytesify (snd (?hs ! i)) = Inr (snd (?out ! i))
                          \<and> bytesify (fst (?hs ! i)) = Inr (fst (?out ! i)))"
    using r by (rule normalize_and_validate_values)
  then have "bytesify (snd (?hs ! 0)) = Inr (snd (?out ! 0))
             \<and> bytesify (snd (?hs ! 1)) = Inr (snd (?out ! 1))"
    by (simp add: All_less_Suc)
  then show ?thesis using r by simp
qed

text \<open>
  Claim C3 as worded has the value stored stripped; \<open>(b'Foo', b' bar ')\<close> is
  stored with its spaces.
\<close>

theorem normalize_and_validate_values_counterexample:
  "normalize_and_validate [(PyBytes ''Foo'', PyBytes '' bar '')] = Inr [(''Foo'', '' bar '')]
   \<and> strip '' bar '' = ''bar'' \<and> '' bar '' \<noteq> strip '' bar ''"
  by code_simp

text \<open>
  Claim C5. When \<open>normalize_and_validate\<close> succeeds, the returned list has exactly one
  entry for each input entry, in input order, and each returned name is the byte
  conversion of the input name at the same position, whatever the name is.
\<close>

theorem normalize_and_validate_order:
  "normalize_and_validate hs = Inr out \<Longrightarrow>
     length out = length hs
     \<and> (\<forall>i<length hs. bytesify (fst (hs ! i)) = Inr (fst (out ! i)))"
  using converted_nth[of hs] by (auto simp add: normalize_Inr_iff)

theorem normalize_and_validate_order_witness:
  "normalize_and_validate [(PyStr [72, 111, 115, 116], PyBytes ''a''), (PyBytes ''X-y'', PyBytes ''b'')]
     = Inr [(''Host'', ''a''), (''X-y'', ''b'')]
   \<and> bytesify (PyStr [72, 111, 115, 116]) = Inr ''Host''
   \<and> bytesify (PyBytes ''X-y'') = Inr ''X-y''"
proof -
  let ?hs = "[(PyStr [72, 111, 115, 116], PyBytes ''a''), (PyBytes ''X-y'', PyBytes ''b'')]"
  let ?out = "[(''Host'', ''a''), (''X-y'', ''b'')]"
  have r: "normalize_and_validate ?hs = Inr ?out" by code_simp
  have "length ?out = length ?hs
        \<and> (\<forall>i<length ?hs. bytesify (fst (?hs ! i)) = Inr (fst (?out ! i)))"
    using r by (rule normalize_and_validate_order)
  then have "bytesify (fst (?hs ! 0)) = Inr (fst (?out ! 0))
             \<and> bytesify (fst (?hs ! 1)) = Inr (fst (?out ! 1))"
    by (simp only: All_less_Suc list.size One_nat_def add_Suc_right add_0_right
          less_Suc0 simp_thms)
  then show ?thesis using r by (simp del: bytesify.simps)
qed

text \<open>
  Claim C6. A valid list of \<open>bytes\<close> pairs is returned by \<open>normalize_and_validate\<close>
  with the same entries in the same order, and normalizing the result of any accepted
  call returns that result again.
\<close>

theorem normalize_and_validate_idempotent:
  "(valid_headers bs \<longrightarrow> normalize_and_validate (of_bytes bs) = Inr bs)
   \<and> (normalize_and_validate hs = Inr out \<longrightarrow> normalize_and_validate (of_bytes out) = Inr out)"
proof
  show "valid_headers bs \<longrightarrow> normalize_and_validate (of_bytes bs) = Inr bs"
    by (simp add: normalize_Inr_iff converted_of_bytes first_error_valid length_of_bytes)
  show "normalize_and_validate hs = Inr out \<longrightarrow> normalize_and_validate (of_bytes out) = Inr out"
  proof
    assume a: "normalize_and_validate hs = Inr out"
    then have "first_error [] out = None" by (simp add: normalize_Inr_iff)
    then show "normalize_and_validate (of_bytes out) = Inr out"
      by (simp add: normalize_Inr_iff converted_of_bytes length_of_bytes)
  qed
qed

theorem normalize_and_validate_idempotent_witness:
  "valid_headers [(''Host'', ''a''), (''Content-Length'', ''10''), (''Transfer-Encoding'', ''chunked'')]
   \<and> normalize_and_validate
        (of_bytes [(''Host'', ''a''), (''Content-Length'', ''10''), (''Transfer-Encoding'', ''chunked'')])
       = Inr [(''Host'', ''a''), (''Content-Length'', ''10''), (''Transfer-Encoding'', ''chunked'')]
   \<and> normalize_and_validate [(PyStr [72, 111, 115, 116], PyBytes '' a'')] = Inr [(''Host'', '' a'')]
   \<and> normalize_and_validate (of_bytes [(''Host'', '' a'')]) = Inr [(''Host'', '' a'')]"
proof -
  let ?bs = "[(''Host'', ''a''), (''Content-Length'', ''10''), (''Transfer-Encoding'', ''chunked'')]"
  have v: "valid_headers ?bs" by code_simp
  have r: "normalize_and_validate [(PyStr [72, 111, 115, 116], PyBytes '' a'')] = Inr [(''Host'', '' a'')]"
    by code_simp
  have 1: "normalize_and_validate (of_bytes ?bs) = Inr ?bs"
    using v by (rule normalize_and_validate_idempotent [THEN conjunct1, THEN mp])
  have 2: "normalize_and_validate (of_bytes [(''Host'', '' a'')]) = Inr [(''Host'', '' a'')]"
    using r by (rule normalize_and_validate_idempotent [THEN conjunct2, THEN mp])
  from v r 1 2 show ?thesis by (intro conjI)
qed

section \<open>The comma-list accessor\<close>

text \<open>
  Claim C7. \<open>get_comma_header\<close> converts the name to bytes and then returns, for the
  headers whose name equals it up to case (every occurrence, in list order), the pieces of
  the value between commas, stripped, without the empty ones, lower-cased exactly when
  \<open>lowercase\<close> is set, in the order of the headers and then of the pieces. The source
  lower-cases the whole value before it splits; the result is the same. On
  \<open>[('X', 'a, b ,c')]\<close> with name \<open>'X'\<close> and case folding the result is
  \<open>['a', 'b', 'c']\<close>.
\<close>

theorem get_comma_header_spec:
  "get_comma_header hs name lowercase =
     (case bytesify name of Inl e \<Rightarrow> Inl e
      | Inr nm \<Rightarrow> Inr (get_comma_spec hs nm lowercase))
   \<and> get_comma_header [(''X'', ''a, b ,c'')] (str_lit ''X'') True = Inr [''a'', ''b'', ''c'']"
proof
  show "get_comma_header hs name lowercase =
     (case bytesify name of Inl e \<Rightarrow> Inl e
      | Inr nm \<Rightarrow> Inr (get_comma_spec hs nm lowercase))"
    by (simp add: get_comma_header_def get_comma_loop_spec split: sum.splits)
  show "get_comma_header [(''X'', ''a, b ,c'')] (str_lit ''X'') True = Inr [''a'', ''b'', ''c'']"
    by code_simp
qed

theorem get_comma_header_spec_witness:
  "get_comma_header [(''Connection'', ''Keep-Alive, Upgrade''), (''Host'', ''a,b''),
                     (''CONNECTION'', '' ,close '')] (PyBytes ''connection'') True
     = Inr [''keep-alive'', ''upgrade'', ''close'']"
proof -
  have "get_comma_spec [(''Connection'', ''Keep-Alive, Upgrade''), (''Host'', ''a,b''),
                        (''CONNECTION'', '' ,close '')] ''connection'' True
          = [''keep-alive'', ''upgrade'', ''close'']"
    by code_simp
  then show ?thesis
    by (simp add: get_comma_header_spec [THEN conjunct1])
qed

text \<open>
  Claim C8. \<open>set_comma_header\<close> leaves in the list the entries whose name differs from
  \<open>name\<close> up to case, unchanged and in their order, followed by one entry
  \<open>(name, v)\<close> for each new value \<open>v\<close> in order. On
  \<open>[('A','1'),('B','2'),('A','3')]\<close> with name \<open>'A'\<close> and values \<open>['9']\<close> the list
  becomes \<open>[('B','2'),('A','9')]\<close>.
\<close>

theorem set_comma_header_spec:
  "set_comma_header hs name new_values =
     (case bytesify name of Inl e \<Rightarrow> Inl e
      | Inr nm \<Rightarrow> Inr (filter (\<lambda>h. lower (fst h) \<noteq> lower nm) hs
                        @ map (\<lambda>v. (nm, v)) new_values))
   \<and> set_comma_header [(''A'', ''1''), (''B'', ''2''), (''A'', ''3'')] (str_lit ''A'') [''9'']
       = Inr [(''B'', ''2''), (''A'', ''9'')]"
proof
  show "set_comma_header hs name new_values =
     (case bytesify name of Inl e \<Rightarrow> Inl e
      | Inr nm \<Rightarrow> Inr (filter (\<lambda>h. lower (fst h) \<noteq> lower nm) hs
                        @ map (\<lambda>v. (nm, v)) new_values))"
    by (simp add: set_comma_header_def keep_others_eq append_new_eq Let_def split: sum.splits)
  show "set_comma_header [(''A'', ''1''), (''B'', ''2''), (''A'', ''3'')] (str_lit ''A'') [''9'']
       = Inr [(''B'', ''2''), (''A'', ''9'')]"
    by code_simp
qed

theorem set_comma_header_spec_witness:
  "set_comma_header [(''Host'', ''x''), (''connection'', ''close''), (''Via'', ''p'')]
     (PyBytes ''Connection'') [''keep-alive'', ''upgrade'']
     = Inr [(''Host'', ''x''), (''Via'', ''p''),
            (''Connection'', ''keep-alive''), (''Connection'', ''upgrade'')]"
proof -
  have "filter (\<lambda>h. lower (fst h) \<noteq> lower ''Connection'')
          [(''Host'', ''x''), (''connection'', ''close''), (''Via'', ''p'')]
        = [(''Host'', ''x''), (''Via'', ''p'')]"
    by code_simp
  then show ?thesis
    by (simp add: set_comma_header_spec [THEN conjunct1])
qed

section \<open>The framing decision\<close>

text \<open>
  Claim C4. For every list \<open>h\<close> that \<open>normalize_and_validate\<close> returns, the
  case-folded Transfer-Encoding comma list is empty or exactly \<open>[b'chunked']\<close>, so the
  assertion of \<open>framing_headers\<close> holds and \<open>AssertionError\<close> is not raised.
\<close>

theorem framing_headers_assertion:
  assumes "normalize_and_validate hs = Inr h"
  shows "(\<exists>tes. get_comma_header h (str_lit ''Transfer-Encoding'') True = Inr tes
            \<and> (tes \<noteq> [] \<longrightarrow> tes = [''chunked'']))
         \<and> framing_headers m h \<noteq> Inl AssertionError"
proof -
  have v: "valid_headers h" using assms by (rule normalize_valid)
  from valid_transfer_encodings[OF v] valid_content_lengths[OF v]
  show ?thesis
    by (auto simp add: framing_headers_def get_comma_header_literals py_int_digits
        split: list.splits sum.splits if_splits)
qed

theorem framing_headers_assertion_witness:
  "normalize_and_validate [(PyBytes ''transfer-encoding'', PyBytes ''Chunked'')]
     = Inr [(''transfer-encoding'', ''Chunked'')]
   \<and> get_comma_header [(''transfer-encoding'', ''Chunked'')] (str_lit ''Transfer-Encoding'') True
       = Inr [''chunked'']
   \<and> framing_headers 4300 [(''transfer-encoding'', ''Chunked'')] \<noteq> Inl AssertionError"
proof -
  have r: "normalize_and_validate [(PyBytes ''transfer-encoding'', PyBytes ''Chunked'')]
     = Inr [(''transfer-encoding'', ''Chunked'')]"
    by code_simp
  have g: "get_comma_header [(''transfer-encoding'', ''Chunked'')]
             (str_lit ''Transfer-Encoding'') True = Inr [''chunked'']"
    by code_simp
  have "framing_headers 4300 [(''transfer-encoding'', ''Chunked'')] \<noteq> Inl AssertionError"
    using r by (rule framing_headers_assertion [THEN conjunct2])
  with r g show ?thesis by (intro conjI)
qed

text \<open>
  Claim C1, as the code has it. For every list \<open>h\<close> that \<open>normalize_and_validate\<close>
  returns, \<open>framing_headers\<close> returns \<open>(b'chunked', None)\<close> when the Transfer-Encoding
  comma list is not empty. Otherwise, when the Content-Length comma list is not empty,
  its first value \<open>t\<close> is a string of digits, and the result is \<open>(None, n)\<close> with
  \<open>n \<ge> 0\<close> the number that \<open>t\<close> denotes, unless \<open>t\<close> has more digits than the
  interpreter's limit for \<open>int\<close>: then \<open>int\<close> raises \<open>ValueError\<close>. Otherwise the
  result is \<open>(None, None)\<close>. Whenever a pair is returned, at least one of its two
  components is \<open>None\<close>.
\<close>

theorem framing_headers_normalized:
  assumes "normalize_and_validate hs = Inr h"
  shows "(get_comma_spec h ''Transfer-Encoding'' True \<noteq> [] \<longrightarrow>
            framing_headers m h = Inr (Some ''chunked'', None))
       \<and> (get_comma_spec h ''Transfer-Encoding'' True = []
            \<and> get_comma_spec h ''Content-Length'' True \<noteq> [] \<longrightarrow>
            (\<exists>t ts. get_comma_spec h ''Content-Length'' True = t # ts
               \<and> all_digit t \<and> 0 \<le> decimal t
               \<and> framing_headers m h =
                   (if exceeds_max_str_digits m (length t) then Inl ValueError
                    else Inr (None, Some (decimal t)))))
       \<and> (get_comma_spec h ''Transfer-Encoding'' True = []
            \<and> get_comma_spec h ''Content-Length'' True = [] \<longrightarrow>
            framing_headers m h = Inr (None, None))
       \<and> (\<forall>te cl. framing_headers m h = Inr (te, cl) \<longrightarrow> te = None \<or> cl = None)"
proof -
  let ?te = "get_comma_spec h ''Transfer-Encoding'' True"
  let ?cl = "get_comma_spec h ''Content-Length'' True"
  have v: "valid_headers h" using assms by (rule normalize_valid)
  have 1: "?te \<noteq> [] \<longrightarrow> framing_headers m h = Inr (Some ''chunked'', None)"
    using valid_transfer_encodings[OF v]
    by (auto simp add: framing_headers_def get_comma_header_literals)
  have 2: "?te = [] \<and> ?cl \<noteq> [] \<longrightarrow>
            (\<exists>t ts. ?cl = t # ts \<and> all_digit t \<and> 0 \<le> decimal t
               \<and> framing_headers m h =
                   (if exceeds_max_str_digits m (length t) then Inl ValueError
                    else Inr (None, Some (decimal t))))"
  proof
    assume a: "?te = [] \<and> ?cl \<noteq> []"
    with valid_content_lengths[OF v] obtain t where t: "all_digit t" and cl: "?cl = [t]"
      by auto
    have "framing_headers m h =
            (if exceeds_max_str_digits m (length t) then Inl ValueError
             else Inr (None, Some (decimal t)))"
      using a cl t by (intro framing_headers_digits) simp_all
    moreover have "0 \<le> decimal t" using t by (rule py_int_digits(2))
    ultimately show "\<exists>t ts. ?cl = t # ts \<and> all_digit t \<and> 0 \<le> decimal t
               \<and> framing_headers m h =
                   (if exceeds_max_str_digits m (length t) then Inl ValueError
                    else Inr (None, Some (decimal t)))"
      using cl t by blast
  qed
  have 3: "?te = [] \<and> ?cl = [] \<longrightarrow> framing_headers m h = Inr (None, None)"
    by (simp add: framing_headers_def get_comma_header_literals)
  have 4: "\<forall>te cl. framing_headers m h = Inr (te, cl) \<longrightarrow> te = None \<or> cl = None"
    using framing_headers_one_none by blast
  from 1 2 3 4 show ?thesis by (intro conjI)
qed

theorem framing_headers_normalized_witness:
  "normalize_and_validate [(PyBytes ''Host'', PyBytes ''a''), (PyBytes ''Content-Length'', PyBytes ''42'')]
     = Inr [(''Host'', ''a''), (''Content-Length'', ''42'')]
   \<and> framing_headers 4300 [(''Host'', ''a''), (''Content-Length'', ''42'')]
       = Inr (None, Some 42)"
proof -
  let ?h = "[(''Host'', ''a''), (''Content-Length'', ''42'')]"
  have r: "normalize_and_validate
             [(PyBytes ''Host'', PyBytes ''a''), (PyBytes ''Content-Length'', PyBytes ''42'')]
           = Inr ?h"
    by code_simp
  have a: "get_comma_spec ?h ''Transfer-Encoding'' True = []" by code_simp
  have b: "get_comma_spec ?h ''Content-Length'' True = [''42'']" by code_simp
  have d: "decimal ''42'' = 42" by code_simp
  have "get_comma_spec ?h ''Transfer-Encoding'' True = []
            \<and> get_comma_spec ?h ''Content-Length'' True \<noteq> [] \<longrightarrow>
            (\<exists>t ts. get_comma_spec ?h ''Content-Length'' True = t # ts
               \<and> all_digit t \<and> 0 \<le> decimal t
               \<and> framing_headers 4300 ?h =
                   (if exceeds_max_str_digits 4300 (length t) then Inl ValueError
                    else Inr (None, Some (decimal t))))"
    using r by (rule framing_headers_normalized [THEN conjunct2, THEN conjunct1])
  then obtain t ts where "[''42''] = t # ts"
    and f: "framing_headers 4300 ?h =
              (if exceeds_max_str_digits 4300 (length t) then Inl ValueError
               else Inr (None, Some (decimal t)))"
    unfolding a b by blast
  then have "framing_headers 4300 ?h = Inr (None, Some 42)"
    using d by (auto simp add: exceeds_max_str_digits_def)
  with r show ?thesis by simp
qed

text \<open>
  Claim C1 as worded has \<open>(None, n)\<close> returned for every accepted list with a
  Content-Length. With the limit of 4300 digits, a Content-Length of 4301 digits is
  accepted by \<open>normalize_and_validate\<close>, and \<open>framing_headers\<close> raises \<open>ValueError\<close>
  on the result.
\<close>

theorem framing_headers_digit_limit_counterexample:
  "normalize_and_validate [(PyBytes ''Content-Length'', PyBytes (replicate 4301 CHR ''9''))]
     = Inr [(''Content-Length'', replicate 4301 CHR ''9'')]
   \<and> framing_headers 4300 [(''Content-Length'', replicate 4301 CHR ''9'')] = Inl ValueError"
proof -
  define v where "v = replicate 4301 CHR ''9''"
  have nine: "is_digit CHR ''9''" by code_simp
  have d: "all_digit v"
    unfolding v_def all_digit_def using nine by (simp add: list_all_iff)
  have l: "length v = 4301" by (simp add: v_def)
  have "normalize_and_validate [(PyBytes ''Content-Length'', PyBytes v)]
          = Inr [(''Content-Length'', v)]"
    using d by (rule single_content_length)
  moreover have "framing_headers 4300 [(''Content-Length'', v)] = Inl ValueError"
    using single_content_length(2)[OF d, of 4300] by (simp add: l exceeds_max_str_digits_def)
  ultimately show ?thesis unfolding v_def by (intro conjI)
qed

text \<open>
  Claim C10. \<open>framing_headers\<close> does not validate Content-Length itself: for every header
  list, normalized or not, whose Transfer-Encoding comma list is empty and whose
  Content-Length comma list is \<open>t # ts\<close>, the result is \<open>int(t)\<close> of the first value
  alone (with the \<open>ValueError\<close> of \<open>int\<close> when \<open>t\<close> is no integer), whatever the further
  values \<open>ts\<close> are. The list \<open>[(b'Content-Length', b'5, 6')]\<close> gives \<open>(None, 5)\<close>.
\<close>

theorem framing_headers_first_token:
  "(get_comma_spec hs ''Transfer-Encoding'' True = [] \<and>
    get_comma_spec hs ''Content-Length'' True = t # ts \<longrightarrow>
      framing_headers m hs =
        (case py_int m t of Inl e \<Rightarrow> Inl e | Inr n \<Rightarrow> Inr (None, Some n)))
   \<and> framing_headers m [(''Content-Length'', ''5, 6'')] = Inr (None, Some 5)"
proof
  show "get_comma_spec hs ''Transfer-Encoding'' True = [] \<and>
    get_comma_spec hs ''Content-Length'' True = t # ts \<longrightarrow>
      framing_headers m hs =
        (case py_int m t of Inl e \<Rightarrow> Inl e | Inr n \<Rightarrow> Inr (None, Some n))"
    by (simp add: framing_headers_def get_comma_header_literals)
  have a: "get_comma_spec [(''Content-Length'', ''5, 6'')] ''Transfer-Encoding'' True = []"
    by code_simp
  have b: "get_comma_spec [(''Content-Length'', ''5, 6'')] ''Content-Length'' True
             = [''5'', ''6'']"
    by code_simp
  have d: "all_digit ''5''" by code_simp
  have v: "decimal ''5'' = 5" by code_simp
  have "py_int m ''5'' = Inr 5"
    using py_int_digits(1)[OF d, of m] by (simp add: v exceeds_max_str_digits_def)
  then show "framing_headers m [(''Content-Length'', ''5, 6'')] = Inr (None, Some 5)"
    by (simp add: framing_headers_def get_comma_header_literals a b)
qed

theorem framing_headers_first_token_witness:
  "get_comma_spec [(''content-length'', ''70,x''), (''Content-Length'', ''8'')]
     ''Transfer-Encoding'' True = []
   \<and> get_comma_spec [(''content-length'', ''70,x''), (''Content-Length'', ''8'')]
       ''Content-Length'' True = [''70'', ''x'', ''8'']
   \<and> framing_headers 4300 [(''content-length'', ''70,x''), (''Content-Length'', ''8'')]
       = Inr (None, Some 70)"
proof -
  let ?hs = "[(''content-length'', ''70,x''), (''Content-Length'', ''8'')]"
  have a: "get_comma_spec ?hs ''Transfer-Encoding'' True = []" by code_simp
  have b: "get_comma_spec ?hs ''Content-Length'' True = [''70'', ''x'', ''8'']" by code_simp
  have c: "py_int 4300 ''70'' = Inr 70" by code_simp
  have "framing_headers 4300 ?hs
          = (case py_int 4300 ''70'' of Inl e \<Rightarrow> Inl e | Inr n \<Rightarrow> Inr (None, Some n))"
    by (rule framing_headers_first_token [THEN conjunct1, THEN mp]) (simp add: a b)
  with a b c show ?thesis by simp
qed

section \<open>The Expect detector\<close>

text \<open>
  Claim C9. \<open>has_expect_100_continue\<close> returns \<open>False\<close> when the version of the request
  is smaller than \<open>b'1.1'\<close> in the order of byte strings, whatever the headers; otherwise
  it returns whether the byte string \<open>b'100-continue'\<close> itself is among the comma-list
  values of the \<open>Expect\<close> headers, which are not case-folded. So \<open>Expect: 100-Continue\<close>
  gives \<open>False\<close> under version 1.1.
\<close>

theorem has_expect_100_continue_spec:
  "has_expect_100_continue req =
     Inr (\<not> bytes_less (http_version req) ''1.1''
          \<and> ''100-continue'' \<in> set (get_comma_spec (headers req) ''Expect'' False))
   \<and> has_expect_100_continue \<lparr>http_version = ''1.1'', headers = [(''Expect'', ''100-Continue'')]\<rparr>
       = Inr False"
proof
  show "has_expect_100_continue req =
     Inr (\<not> bytes_less (http_version req) ''1.1''
          \<and> ''100-continue'' \<in> set (get_comma_spec (headers req) ''Expect'' False))"
    by (simp add: has_expect_100_continue_def get_comma_header_literals)
  show "has_expect_100_continue \<lparr>http_version = ''1.1'', headers = [(''Expect'', ''100-Continue'')]\<rparr>
       = Inr False"
    by code_simp
qed

theorem has_expect_100_continue_spec_witness:
  "has_expect_100_continue \<lparr>http_version = ''1.1'', headers = [(''expect'', ''100-continue'')]\<rparr>
     = Inr True
   \<and> has_expect_100_continue \<lparr>http_version = ''1.0'', headers = [(''expect'', ''100-continue'')]\<rparr>
     = Inr False"
proof -
  have a: "\<not> bytes_less ''1.1'' ''1.1''" by code_simp
  have b: "bytes_less ''1.0'' ''1.1''" by code_simp
  have c: "get_comma_spec [(''expect'', ''100-continue'')] ''Expect'' False = [''100-continue'']"
    by code_simp
  show ?thesis
    by (simp add: has_expect_100_continue_spec [THEN conjunct1] a b c)
qed

end
